theory Spec2Isabelle
  imports Main "HOL-Library.Word"
begin

section \<open>Data model of \<open>copng.cpp\<close>\<close>

text \<open>
  Integer types are those of an LP64 platform: \<open>int\<close>, \<open>unsigned\<close> and \<open>png_uint_32\<close>
  have 32 bits, \<open>size_t\<close> has 64 bits and \<open>png_byte\<close> has 8. A C++ \<open>int\<close> is kept as
  a 32-bit word and read through \<open>sint\<close>. A conversion from \<open>int\<close> to \<open>size_t\<close> is
  \<open>scast\<close> (sign extension), one from \<open>size_t\<close> to \<open>int\<close> is \<open>ucast\<close> (the low 32
  bits, the modular conversion of C++20) and one from \<open>unsigned\<close> to \<open>size_t\<close> is
  \<open>ucast\<close> (zero extension).
\<close>

type_synonym byte = "8 word"
type_synonym png_uint_32 = "32 word"
type_synonym unsigned = "32 word"
type_synonym size_t = "64 word"
type_synonym cint = "32 word"

text \<open>
  Every way a call can end other than by returning: the \<open>std::runtime_error\<close>s the
  source throws (with their messages), a failed \<open>assert\<close>, the \<open>std::out_of_range\<close> of
  \<open>std::array::at\<close>, and the undefined behaviours the source can reach (division by
  zero, signed overflow, an access outside the row buffer).
\<close>

datatype failure =
    RuntimeError string
  | AssertionFailed
  | StdOutOfRange
  | DivisionByZero
  | SignedOverflow
  | OutOfBounds

text \<open>The names the specification gives to two of the runtime errors.\<close>

definition InvalidSampleRate :: failure where
  "InvalidSampleRate = RuntimeError ''Sample rate outside dimensions of image''"

definition IOReadError :: failure where
  "IOReadError = RuntimeError ''There was an error reading the file''"

text \<open>The fields \<open>png_get_IHDR\<close> reads and \<open>png_set_IHDR\<close> writes.\<close>

record IHDR =
  width :: png_uint_32
  height :: png_uint_32
  bit_depth :: cint
  color_type :: cint
  interlace_type :: cint
  compression_type :: cint
  filter_type :: cint

text \<open>
  What the callbacks ask the decoder (\<open>png_ptr\<close>, \<open>png_info\<close>) for:
  \<open>png_get_IHDR\<close>, \<open>png_get_rowbytes\<close> (a \<open>size_t\<close>) and \<open>png_get_channels\<close>
  (a \<open>png_byte\<close>).
\<close>

record png_read_info =
  get_IHDR :: IHDR
  get_rowbytes :: size_t
  get_channels :: byte

text \<open>
  The write handle \<open>png_write_ptr\<close> is the sequence of calls made on it so far:
  \<open>png_set_IHDR\<close> followed by \<open>png_write_info\<close>, \<open>png_write_row\<close> (with the contents of
  the row buffer it is handed), \<open>png_write_flush\<close> and \<open>png_write_end\<close>.
\<close>

datatype write_call =
    WriteInfo IHDR
  | WriteRow "byte list"
  | WriteFlush
  | WriteEnd

record userInfo =
  isDone :: bool
  png_write_ptr :: "write_call list"
  rowWidth :: size_t
  channels :: size_t
  sampleRate :: unsigned

section \<open>\<open>PngReadWrite::info_callback\<close>\<close>

text \<open>
  \<open>create_ok\<close> is whether \<open>png_create_info_struct\<close> returned a non-null pointer.
  With a sample rate of 0 neither comparison of the range check holds and the division
  is reached.
\<close>

definition info_callback :: "bool \<Rightarrow> png_read_info \<Rightarrow> userInfo \<Rightarrow> failure + userInfo" where
  "info_callback create_ok png_info info =
    (let hdr = get_IHDR png_info in
     if \<not> create_ok then Inl (RuntimeError ''Error creating ping write info ptr'')
     else if width hdr < sampleRate info \<or> height hdr < sampleRate info
       then Inl (RuntimeError ''Sample rate outside dimensions of image'')
     else if sampleRate info = 0 then Inl DivisionByZero
     else Inr (info
       \<lparr> png_write_ptr := png_write_ptr info @
           [WriteInfo (hdr \<lparr> width := width hdr div sampleRate info,
                            height := height hdr div sampleRate info \<rparr>),
            WriteFlush],
         rowWidth := get_rowbytes png_info,
         channels := ucast (get_channels png_info) \<rparr>))"

section \<open>\<open>PngReadWrite::row_callback\<close>\<close>

text \<open>
  The row buffer \<open>new_row\<close> is the list of the bytes of the decoder's allocation; an
  index outside it is the failure \<open>OutOfBounds\<close>. Two \<open>int\<close>s are added as \<open>int\<close>s,
  and a sum outside the 32-bit range is the failure \<open>SignedOverflow\<close>; so is \<open>++y\<close> at
  the largest \<open>int\<close>.
\<close>

definition int_fits :: "int \<Rightarrow> bool" where
  "int_fits v \<longleftrightarrow> - (2 ^ 31) \<le> v \<and> v < 2 ^ 31"

definition in_buffer :: "int \<Rightarrow> byte list \<Rightarrow> bool" where
  "in_buffer k new_row \<longleftrightarrow> 0 \<le> k \<and> k < int (length new_row)"

text \<open>
  The inner loop, \<open>for (int y = 0; y < info->channels; ++y)\<close>, entered at \<open>y\<close>:
  \<open>new_row[writePos+y] = new_row[i+y]\<close>. The comparison is made in \<open>size_t\<close>.
\<close>

function copy_channels :: "userInfo \<Rightarrow> cint \<Rightarrow> cint \<Rightarrow> cint \<Rightarrow> byte list \<Rightarrow> failure + byte list" where
  "copy_channels info i writePos y new_row =
    (if (scast y :: size_t) < channels info then
       (if \<not> int_fits (sint writePos + sint y) \<or> \<not> int_fits (sint i + sint y)
          then Inl SignedOverflow
        else if \<not> in_buffer (sint writePos + sint y) new_row \<or> \<not> in_buffer (sint i + sint y) new_row
          then Inl OutOfBounds
        else if \<not> int_fits (sint y + 1) then Inl SignedOverflow
        else copy_channels info i writePos (y + 1)
               (new_row [nat (sint writePos + sint y) := new_row ! nat (sint i + sint y)]))
     else Inr new_row)"
  by pat_completeness auto
termination
proof (relation "measure (\<lambda>(info, i, writePos, y, new_row). nat (2 ^ 31 - sint y))")
  show "wf (measure (\<lambda>(info :: userInfo, i :: cint, writePos :: cint, y :: cint, new_row :: byte list).
              nat (2 ^ 31 - sint y)))"
    by simp
next
  fix info :: userInfo and i writePos y :: cint and new_row :: "byte list"
  assume "\<not> \<not> int_fits (sint y + 1)"
  then have "sint y + 1 < 2 ^ 31"
    by (simp add: int_fits_def)
  moreover have "- (2 ^ 31) \<le> sint y + 1"
    using sint_ge [of y] by simp
  ultimately have "sint (y + 1) = sint y + 1"
    by (simp add: sint_word_add signed_take_bit_int_eq_self)
  moreover have "sint y < 2 ^ 31"
    using sint_lt [of y] by simp
  ultimately show "((info, i, writePos, y + 1,
            new_row [nat (sint writePos + sint y) := new_row ! nat (sint i + sint y)]),
           (info, i, writePos, y, new_row))
          \<in> measure (\<lambda>(info, i, writePos, y, new_row). nat (2 ^ 31 - sint y))"
    by simp
qed

text \<open>
  The outer loop, \<open>for (int i = 0; i < info->rowWidth; i += info->sampleRate*info->channels)\<close>,
  entered at \<open>i\<close> and \<open>writePos\<close>. The comparison, the stride and both additions are
  computed in \<open>size_t\<close>; the sums are converted back to \<open>int\<close>. The result is the row
  buffer and the final \<open>writePos\<close>; \<open>None\<close> is a loop that does not end.
\<close>

partial_function (option) shrink_row ::
  "userInfo \<Rightarrow> cint \<Rightarrow> cint \<Rightarrow> byte list \<Rightarrow> (failure + byte list \<times> cint) option" where
  "shrink_row info i writePos new_row =
    (if (scast i :: size_t) < rowWidth info then
       (case (if (scast i :: size_t) + channels info < rowWidth info
              then copy_channels info i writePos 0 new_row else Inr new_row) of
          Inl f \<Rightarrow> Some (Inl f)
        | Inr new_row' \<Rightarrow>
            shrink_row info
              (ucast ((scast i :: size_t) + ucast (sampleRate info) * channels info))
              (ucast ((scast writePos :: size_t) + channels info))
              new_row')
     else Some (Inr (new_row, writePos)))"

declare shrink_row.simps [code]

text \<open>
  The callback: the assertion, the row test (a remainder by 0 is undefined), the
  transform in place, then \<open>png_write_row\<close> and \<open>png_write_flush\<close>. The parameter
  \<open>pass\<close> is not used by the source and is left out.
\<close>

definition row_callback :: "byte list \<Rightarrow> png_uint_32 \<Rightarrow> userInfo \<Rightarrow> (failure + userInfo) option" where
  "row_callback new_row row_num info =
    (if \<not> rowWidth info > 0 then Some (Inl AssertionFailed)
     else if sampleRate info = 0 then Some (Inl DivisionByZero)
     else if row_num mod sampleRate info = 0 then
       (case shrink_row info 0 0 new_row of
          None \<Rightarrow> None
        | Some (Inl f) \<Rightarrow> Some (Inl f)
        | Some (Inr (new_row', writePos)) \<Rightarrow>
            Some (Inr (info \<lparr> png_write_ptr := png_write_ptr info @ [WriteRow new_row', WriteFlush] \<rparr>)))
     else Some (Inr info))"

text \<open>
  The contents of the row buffer when the loop of \<open>row_callback\<close> has returned: what
  \<open>png_write_row\<close> is handed for a retained row.
\<close>

definition shrunk :: "userInfo \<Rightarrow> byte list \<Rightarrow> byte list" where
  "shrunk info new_row =
    (case shrink_row info 0 0 new_row of
       Some (Inr (new_row', writePos)) \<Rightarrow> new_row'
     | _ \<Rightarrow> new_row)"

section \<open>\<open>PngReadWrite::end_callback\<close>\<close>

text \<open>The user pointer registered by \<open>coPng\<close> is never null, so the null check passes.\<close>

definition end_callback :: "userInfo \<Rightarrow> failure + userInfo" where
  "end_callback info =
    Inr (info \<lparr> isDone := True, png_write_ptr := png_write_ptr info @ [WriteEnd, WriteFlush] \<rparr>)"

section \<open>The callbacks as the decoder calls them\<close>

text \<open>
  \<open>png_process_data\<close> calls the three callbacks registered by
  \<open>png_set_progressive_read_fn\<close>, in the order in which it decodes the header, the rows
  and the end of the image. A run is a list of such calls. Each callback throws, if it
  does, before its first call on the write handle, so the state at a failure is the state
  before that callback. \<open>None\<close> is a run that does not end.
\<close>

datatype png_event =
    InfoEvent bool png_read_info
  | RowEvent "byte list" png_uint_32
  | EndEvent

definition callback :: "png_event \<Rightarrow> userInfo \<Rightarrow> (failure + userInfo) option" where
  "callback ev info =
    (case ev of
       InfoEvent create_ok png_info \<Rightarrow> Some (info_callback create_ok png_info info)
     | RowEvent new_row row_num \<Rightarrow> row_callback new_row row_num info
     | EndEvent \<Rightarrow> Some (end_callback info))"

fun run_callbacks :: "png_event list \<Rightarrow> userInfo \<Rightarrow> (failure option \<times> userInfo) option" where
  "run_callbacks [] info = Some (None, info)"
| "run_callbacks (ev # evs) info =
    (case callback ev info of
       None \<Rightarrow> None
     | Some (Inl f) \<Rightarrow> Some (Some f, info)
     | Some (Inr info') \<Rightarrow> run_callbacks evs info')"

text \<open>
  The \<open>userInfo\<close> that \<open>coPng\<close> registers: the member initialisers of the struct, a
  fresh write handle and the sample rate of the command line.
\<close>

definition coPng_info :: "unsigned \<Rightarrow> userInfo" where
  "coPng_info rate =
    \<lparr> isDone = False, png_write_ptr = [], rowWidth = 0, channels = 1, sampleRate = rate \<rparr>"

section \<open>The awaiter \<open>Reader\<close>\<close>

text \<open>
  The reader owns its stream. Of \<open>std::ifstream\<close> it calls \<open>readsome\<close>, which, asked
  for at most \<open>n\<close> characters, extracts some and leaves the stream in a new state,
  and \<open>fail\<close>. Both are parameters; \<open>bufSize\<close> is the template parameter. Sizes are
  natural numbers: they are bounded by \<open>bufSize\<close>.
\<close>

record 's istream =
  readsome :: "'s \<Rightarrow> nat \<Rightarrow> byte list \<times> 's"
  fail :: "'s \<Rightarrow> bool"

record 's Reader =
  imageStream :: 's
  imageBuffer :: "byte list"
  totalRead :: nat

definition await_ready :: "nat \<Rightarrow> 's Reader \<Rightarrow> bool" where
  "await_ready bufSize r \<longleftrightarrow> totalRead r = bufSize"

text \<open>
  \<open>imageBuffer.at(totalRead)\<close> throws when \<open>totalRead\<close> is not below \<open>bufSize\<close>. The
  characters extracted are stored from position \<open>totalRead\<close> on. The coroutine handle
  that \<open>await_suspend\<close> is passed is not used by the source and is left out.
\<close>

definition await_suspend :: "'s istream \<Rightarrow> nat \<Rightarrow> 's Reader \<Rightarrow> failure + bool \<times> 's Reader" where
  "await_suspend io bufSize r =
    (if \<not> totalRead r < bufSize then Inl StdOutOfRange
     else
       (case readsome io (imageStream r) (bufSize - totalRead r) of
          (bytes, stream') \<Rightarrow>
            (let numRead = length bytes;
                 r' = r \<lparr> imageStream := stream',
                          imageBuffer := take (totalRead r) (imageBuffer r) @ bytes @
                                         drop (totalRead r + numRead) (imageBuffer r) \<rparr>
             in if numRead = 0 then Inr (False, r')
                else if fail io stream'
                  then Inl (RuntimeError ''There was an error reading the file'')
                else if \<not> totalRead r + numRead \<le> bufSize then Inl AssertionFailed
                else if totalRead r + numRead = bufSize
                  then Inr (False, r' \<lparr> totalRead := totalRead r + numRead \<rparr>)
                else Inr (True, r' \<lparr> totalRead := totalRead r + numRead \<rparr>))))"

definition await_resume :: "'s Reader \<Rightarrow> byte list" where
  "await_resume r = take (totalRead r) (imageBuffer r)"

definition clear :: "'s Reader \<Rightarrow> 's Reader" where
  "clear r = r \<lparr> totalRead := 0 \<rparr>"

text \<open>
  \<open>co_await imageReader\<close>, by the rules of the language: when \<open>await_ready\<close> returns
  true the coroutine is not suspended; otherwise \<open>await_suspend\<close> is called and the
  coroutine is suspended exactly when it returns true. Either way the value of the
  expression is that of \<open>await_resume\<close>, called when the coroutine goes on; nothing
  touches the reader in between. The result is that span, whether the coroutine was
  suspended (the caller has to wait and ask again), and the reader.
\<close>

definition co_await :: "'s istream \<Rightarrow> nat \<Rightarrow> 's Reader \<Rightarrow> failure + byte list \<times> bool \<times> 's Reader" where
  "co_await io bufSize r =
    (if await_ready bufSize r then Inr (await_resume r, False, r)
     else
       (case await_suspend io bufSize r of
          Inl f \<Rightarrow> Inl f
        | Inr (suspended, r') \<Rightarrow> Inr (await_resume r', suspended, r')))"

section \<open>Inputs of the examples\<close>

text \<open>
  What the decoder reports for an 8-bit greyscale image of the given width and height:
  one channel and one byte per pixel.
\<close>

definition gray8 :: "png_uint_32 \<Rightarrow> png_uint_32 \<Rightarrow> png_read_info" where
  "gray8 w h =
    \<lparr> get_IHDR = \<lparr> width = w, height = h, bit_depth = 8, color_type = 0, interlace_type = 0,
                     compression_type = 0, filter_type = 0 \<rparr>,
      get_rowbytes = ucast w, get_channels = 1 \<rparr>"

text \<open>
  The row context of an image of one channel: a row of \<open>w\<close> bytes, a sample rate, and
  nothing written yet.
\<close>

definition gray_info :: "size_t \<Rightarrow> unsigned \<Rightarrow> userInfo" where
  "gray_info w rate =
    \<lparr> isDone = False, png_write_ptr = [], rowWidth = w, channels = 1, sampleRate = rate \<rparr>"

text \<open>
  A row context whose stride \<open>sampleRate * channels\<close> is \<open>2 ^ 32\<close>: converted to
  \<open>int\<close>, the stride is 0.
\<close>

definition wrap_info :: userInfo where
  "wrap_info = \<lparr> isDone = False, png_write_ptr = [], rowWidth = 4, channels = 4,
                  sampleRate = 1073741824 \<rparr>"

text \<open>
  The \<open>userInfo\<close> after the header callback of the 8 by 8 image of one channel with
  sample rate 2: the header written is 4 by 4.
\<close>

definition info_8x8 :: userInfo where
  "info_8x8 =
    \<lparr> isDone = False,
      png_write_ptr =
        [WriteInfo \<lparr> width = 4, height = 4, bit_depth = 8, color_type = 0, interlace_type = 0,
                     compression_type = 0, filter_type = 0 \<rparr>, WriteFlush],
      rowWidth = 8, channels = 1, sampleRate = 2 \<rparr>"

text \<open>
  Three byte sources. The first reads from a list of pending bytes and has a fail flag;
  once the flag is set, \<open>readsome\<close> extracts nothing. The second is a source whose
  device is broken: every \<open>readsome\<close> extracts nothing and sets the fail flag. The
  third fails while it extracts: \<open>readsome\<close> hands over the pending bytes and sets the
  fail flag.
\<close>

definition list_stream :: "(byte list \<times> bool) istream" where
  "list_stream =
    \<lparr> readsome = (\<lambda>(pending, failed) n.
         if failed then ([], (pending, True)) else (take n pending, (drop n pending, False))),
      fail = snd \<rparr>"

definition broken_stream :: "bool istream" where
  "broken_stream = \<lparr> readsome = (\<lambda>failed n. ([], True)), fail = (\<lambda>failed. failed) \<rparr>"

definition torn_stream :: "(byte list \<times> bool) istream" where
  "torn_stream =
    \<lparr> readsome = (\<lambda>(pending, failed) n. (take n pending, (drop n pending, True))),
      fail = snd \<rparr>"

section \<open>The row loop without wrap-around\<close>

text \<open>
  A row context in which the loop indices stay inside the range of \<open>int\<close>: the row
  width, the channel count and the sample rate are positive, and the row width plus one
  stride is below \<open>2 ^ 31\<close>. Since \<open>i\<close> is below the row width whenever the body runs,
  no sum of the loop then wraps around or overflows.
\<close>

definition row_context_ok :: "userInfo \<Rightarrow> bool" where
  "row_context_ok info \<longleftrightarrow>
     0 < unat (rowWidth info) \<and> 0 < unat (channels info) \<and> 0 < unat (sampleRate info) \<and>
     unat (rowWidth info) + unat (sampleRate info) * unat (channels info) < 2 ^ 31"

text \<open>
  The two loops on natural numbers, with the stride \<open>st\<close> for
  \<open>sampleRate * channels\<close>. In such a context the loops of the source compute what
  these compute (lemmas \<open>copy_channels_nat\<close> and \<open>shrink_row_nat\<close> below), and the
  properties of the source's loops are proved through them.
\<close>

function copy_nat :: "nat \<Rightarrow> nat \<Rightarrow> nat \<Rightarrow> nat \<Rightarrow> byte list \<Rightarrow> byte list" where
  "copy_nat ch n w k row =
     (if k < ch then copy_nat ch n w (Suc k) (row [w + k := row ! (n + k)]) else row)"
  by pat_completeness auto
termination
  by (relation "measure (\<lambda>(ch, n, w, k, row). ch - k)") auto

function shrink_nat :: "nat \<Rightarrow> nat \<Rightarrow> nat \<Rightarrow> nat \<Rightarrow> nat \<Rightarrow> byte list \<Rightarrow> byte list \<times> nat" where
  "shrink_nat rw ch st n w row =
     (if n < rw \<and> 0 < st
      then shrink_nat rw ch st (n + st) (w + ch) (if n + ch < rw then copy_nat ch n w 0 row else row)
      else (row, w))"
  by pat_completeness auto
termination
  by (relation "measure (\<lambda>(rw, ch, st, n, w, row). rw - n)") auto

declare copy_nat.simps [simp del] shrink_nat.simps [simp del]

section \<open>Conversions between \<open>int\<close> and \<open>size_t\<close>\<close>

lemma unat_scast_nonneg:
  fixes i :: "32 word"
  assumes "0 \<le> sint i"
  shows "unat (scast i :: 64 word) = nat (sint i)"
proof -
  have s: "sint (scast i :: 64 word) = sint i"
    by (rule sint_up_scast) (simp add: is_up)
  have lt: "sint i < 2 ^ 31"
    using sint_lt [of i] by simp
  have "uint (scast i :: 64 word) = take_bit 64 (sint i)"
    using uint_sint [of "scast i :: 64 word"] s by simp
  also have "\<dots> = sint i"
    using assms lt by (simp add: take_bit_int_eq_self)
  finally have u: "uint (scast i :: 64 word) = sint i" .
  have "unat (scast i :: 64 word) = nat (uint (scast i :: 64 word))"
    by simp
  then show ?thesis
    by (simp only: u)
qed

lemma unat_scast_nat:
  fixes i :: "32 word"
  assumes "sint i = int n"
  shows "unat (scast i :: 64 word) = n"
  using unat_scast_nonneg [of i] assms by simp

lemma sint_ucast_small:
  fixes x :: "64 word"
  assumes "unat x < 2 ^ 31"
  shows "sint (ucast x :: 32 word) = int (unat x)"
proof -
  have lt: "uint x < 2 ^ 31"
    using assms of_nat_less_iff [where ?'a = int, of "unat x" "2 ^ 31"] by simp
  have ge: "- (2 ^ 31) \<le> uint x"
    by (rule order_trans [of _ 0]) simp_all
  have "signed_take_bit 31 (uint x) = uint x"
    using ge lt by (rule signed_take_bit_int_eq_self)
  then show ?thesis
    by (simp add: signed_ucast_eq)
qed

lemma unat_ucast_32_64: "unat (ucast (s :: 32 word) :: 64 word) = unat s"
proof -
  have "unat s < 2 ^ 32"
    using unsigned_less [of s, where 'a = nat] by simp
  then have "unat s < 2 ^ 64"
    by (rule less_trans) simp
  then show ?thesis
    by (simp add: unsigned_ucast_eq take_bit_nat_eq_self)
qed

lemma sint_succ: "sint (y :: 32 word) + 1 < 2 ^ 31 \<Longrightarrow> sint (y + 1) = sint y + 1"
  using sint_ge [of y] by (simp add: sint_word_add signed_take_bit_int_eq_self)

section \<open>The loops of the source and the loops on natural numbers\<close>

lemma length_copy_nat: "length (copy_nat ch n w k row) = length row"
  by (induction ch n w k row rule: copy_nat.induct) (simp add: copy_nat.simps)

lemma copy_channels_nat:
  assumes "unat (channels info) = ch"
    and "sint i = int n" and "sint writePos = int w" and "sint y = int k"
    and "n + ch \<le> length row" and "w \<le> n" and "n + ch < 2 ^ 31"
  shows "copy_channels info i writePos y row = Inr (copy_nat ch n w k row)"
  using assms
proof (induction ch n w k row arbitrary: y rule: copy_nat.induct)
  case (1 ch n w k row)
  have cond: "(scast y :: size_t) < channels info \<longleftrightarrow> k < ch"
    using unat_scast_nat [OF \<open>sint y = int k\<close>] \<open>unat (channels info) = ch\<close>
    by (simp add: word_less_nat_alt)
  show ?case
  proof (cases "k < ch")
    case False
    then show ?thesis
      using cond by (simp add: copy_nat.simps [of _ n w k])
  next
    case True
    have lt: "n + k < 2 ^ 31" "w + k < 2 ^ 31" "k + 1 < 2 ^ 31"
      using True "1.prems" by simp_all
    have fits: "int_fits (sint writePos + sint y)" "int_fits (sint i + sint y)" "int_fits (sint y + 1)"
      using lt "1.prems" by (simp_all add: int_fits_def)
    have inb: "in_buffer (sint writePos + sint y) row" "in_buffer (sint i + sint y) row"
      using True "1.prems" by (simp_all add: in_buffer_def)
    have next_y: "sint (y + 1) = int (Suc k)"
      using lt(3) \<open>sint y = int k\<close> sint_succ [of y] by simp
    have idx: "nat (sint writePos + sint y) = w + k" "nat (sint i + sint y) = n + k"
      using "1.prems" by (simp_all add: nat_add_distrib)
    have "copy_channels info i writePos (y + 1) (row [w + k := row ! (n + k)])
          = Inr (copy_nat ch n w (Suc k) (row [w + k := row ! (n + k)]))"
      using True "1.prems" next_y by (intro "1.IH") simp_all
    then show ?thesis
      using True cond fits inb idx by (simp add: copy_nat.simps [of _ n w k])
  qed
qed


lemma length_shrink_nat: "length (fst (shrink_nat rw ch st n w row)) = length row"
  by (induction rw ch st n w row rule: shrink_nat.induct)
     (simp add: shrink_nat.simps length_copy_nat)

lemma shrink_row_nat:
  assumes "row_context_ok info"
    and "unat (rowWidth info) = rw" and "unat (channels info) = ch"
    and "unat (sampleRate info) * unat (channels info) = st"
    and "sint i = int n" and "sint writePos = int w"
    and "w \<le> n" and "n < rw + st" and "rw \<le> length row"
  shows "\<exists>writePos'. shrink_row info i writePos row
            = Some (Inr (fst (shrink_nat rw ch st n w row), writePos'))
          \<and> sint writePos' = int (snd (shrink_nat rw ch st n w row))"
  using assms
proof (induction rw ch st n w row arbitrary: i writePos rule: shrink_nat.induct)
  case (1 rw ch st n w row)
  have range: "rw + st < 2 ^ 31" and pos: "0 < rw" "0 < ch" "0 < st" and le: "ch \<le> st"
    using "1.prems" by (auto simp: row_context_ok_def)
  have cond: "(scast i :: size_t) < rowWidth info \<longleftrightarrow> n < rw"
    using unat_scast_nat [OF \<open>sint i = int n\<close>] \<open>unat (rowWidth info) = rw\<close>
    by (simp add: word_less_nat_alt)
  show ?case
  proof (cases "n < rw")
    case False
    then show ?thesis
      using cond \<open>sint writePos = int w\<close>
      by (simp add: shrink_nat.simps [of rw ch st n] shrink_row.simps [of info i])
  next
    case True
    have small: "n + ch < 2 ^ 31" "n + st < 2 ^ 31" "w + ch < 2 ^ 31"
      using True range le \<open>w \<le> n\<close> by simp_all
    have sum_ch: "unat ((scast i :: size_t) + channels info) = n + ch"
      using unat_scast_nat [OF \<open>sint i = int n\<close>] \<open>unat (channels info) = ch\<close> small
      by (simp add: unat_word_ariths)
    have guard: "(scast i :: size_t) + channels info < rowWidth info \<longleftrightarrow> n + ch < rw"
      using sum_ch \<open>unat (rowWidth info) = rw\<close> by (simp add: word_less_nat_alt)
    have stride: "unat (ucast (sampleRate info) * channels info :: size_t) = st"
      using \<open>unat (sampleRate info) * unat (channels info) = st\<close> small
      by (simp add: unat_word_ariths unat_ucast_32_64)
    have next_i: "sint (ucast ((scast i :: size_t) + ucast (sampleRate info) * channels info) :: cint)
                  = int (n + st)"
    proof -
      have "unat ((scast i :: size_t) + ucast (sampleRate info) * channels info) = n + st"
        using unat_scast_nat [OF \<open>sint i = int n\<close>] stride small
        by (simp add: unat_word_ariths)
      then show ?thesis
        using small sint_ucast_small [of "(scast i :: size_t) + ucast (sampleRate info) * channels info"]
        by simp
    qed
    have next_w: "sint (ucast ((scast writePos :: size_t) + channels info) :: cint) = int (w + ch)"
    proof -
      have "unat ((scast writePos :: size_t) + channels info) = w + ch"
        using unat_scast_nat [OF \<open>sint writePos = int w\<close>] \<open>unat (channels info) = ch\<close> small
        by (simp add: unat_word_ariths)
      then show ?thesis
        using small sint_ucast_small [of "(scast writePos :: size_t) + channels info"]
        by simp
    qed
    define row1 where "row1 = (if n + ch < rw then copy_nat ch n w 0 row else row)"
    have inner: "(if (scast i :: size_t) + channels info < rowWidth info
                  then copy_channels info i writePos 0 row else Inr row) = Inr row1"
    proof (cases "n + ch < rw")
      case False
      then show ?thesis
        using guard by (simp add: row1_def)
    next
      case True
      have "copy_channels info i writePos 0 row = Inr (copy_nat ch n w 0 row)"
        using True "1.prems" small by (intro copy_channels_nat) simp_all
      then show ?thesis
        using True guard by (simp add: row1_def)
    qed
    have len1: "length row1 = length row"
      by (simp add: row1_def length_copy_nat)
    have "\<exists>writePos'. shrink_row info
              (ucast ((scast i :: size_t) + ucast (sampleRate info) * channels info))
              (ucast ((scast writePos :: size_t) + channels info)) row1
            = Some (Inr (fst (shrink_nat rw ch st (n + st) (w + ch) row1), writePos'))
          \<and> sint writePos' = int (snd (shrink_nat rw ch st (n + st) (w + ch) row1))"
      unfolding row1_def
      using True pos "1.prems" next_i next_w le len1
      by (intro "1.IH") (simp_all add: row1_def)
    then show ?thesis
      using True pos cond inner
      by (simp add: shrink_nat.simps [of rw ch st n] shrink_row.simps [of info i] row1_def)
  qed
qed

section \<open>Properties of the loops on natural numbers\<close>

lemma ceil_div_step:
  fixes d st :: nat
  assumes "0 < st" and "0 < d"
  shows "(d + st - 1) div st = Suc ((d - st + st - 1) div st)"
proof (cases "st \<le> d")
  case True
  then have "d + st - 1 = (d - st + st - 1) + st"
    using assms by simp
  then show ?thesis
    using assms by (simp only: div_add_self2)
next
  case False
  then have z: "d - st = 0" and lo: "st \<le> d + st - 1" and hi: "d + st - 1 - st < st"
    using assms by simp_all
  have "(d + st - 1) div st = Suc ((d + st - 1 - st) div st)"
    using lo assms(1) by (simp add: le_div_geq)
  also have "(d + st - 1 - st) div st = 0"
    using hi by simp
  finally show ?thesis
    using z assms by simp
qed

lemma snd_shrink_nat:
  assumes "0 < st"
  shows "snd (shrink_nat rw ch st n w row) = w + ch * ((rw - n + st - 1) div st)"
  using assms
proof (induction rw ch st n w row rule: shrink_nat.induct)
  case (1 rw ch st n w row)
  show ?case
  proof (cases "n < rw")
    case True
    have "(rw - n + st - 1) div st = Suc ((rw - (n + st) + st - 1) div st)"
      using ceil_div_step [of st "rw - n"] True "1.prems" by simp
    then show ?thesis
      using True "1.prems" "1.IH" by (simp add: shrink_nat.simps [of rw ch st n])
  next
    case False
    then show ?thesis
      using "1.prems" by (simp add: shrink_nat.simps [of rw ch st n])
  qed
qed





lemma copy_nat_outside:
  assumes "p < w + k \<or> w + ch \<le> p"
  shows "copy_nat ch n w k row ! p = row ! p"
  using assms
proof (induction ch n w k row rule: copy_nat.induct)
  case (1 ch n w k row)
  then show ?case
    by (cases "k < ch") (auto simp add: copy_nat.simps [of ch n w k])
qed


lemma shrink_nat_untouched:
  assumes "0 < st" and "ch \<le> st"
    and "w + ch * ((rw - (n + ch) + st - 1) div st) \<le> p"
  shows "fst (shrink_nat rw ch st n w row) ! p = row ! p"
  using assms
proof (induction rw ch st n w row rule: shrink_nat.induct)
  case (1 rw ch st n w row)
  show ?case
  proof (cases "n < rw")
    case False
    then have "shrink_nat rw ch st n w row = (row, w)"
      by (subst shrink_nat.simps) simp
    then show ?thesis
      by simp
  next
    case True
    then have go: "n < rw \<and> 0 < st"
      using "1.prems" by simp
    show ?thesis
    proof (cases "n + ch < rw")
      case True
      have "(rw - (n + ch) + st - 1) div st = Suc ((rw - (n + st + ch) + st - 1) div st)"
        using ceil_div_step [of st "rw - (n + ch)"] True "1.prems"
        by (simp add: add.commute add.left_commute)
      then have above: "w + ch + ch * ((rw - (n + st + ch) + st - 1) div st) \<le> p"
        using "1.prems" by simp
      then have "w + ch \<le> p"
        by simp
      then have copied: "copy_nat ch n w 0 row ! p = row ! p"
        by (simp add: copy_nat_outside)
      have "fst (shrink_nat rw ch st (n + st) (w + ch) (copy_nat ch n w 0 row)) ! p
            = copy_nat ch n w 0 row ! p"
        using "1.IH" [OF go] "1.prems" above True by simp
      then show ?thesis
        using go True copied by (subst shrink_nat.simps) simp
    next
      case False
      then have "\<not> n + st < rw"
        using "1.prems" by simp
      then have "shrink_nat rw ch st (n + st) (w + ch) row = (row, w + ch)"
        by (subst shrink_nat.simps) simp
      then show ?thesis
        using go False by (subst shrink_nat.simps) simp
    qed
  qed
qed

lemma copies_le_when_last_dropped:
  fixes rw ch st :: nat
  assumes "0 < st" and "\<not> ((rw + st - 1) div st - 1) * st + ch < rw"
  shows "(rw - ch + st - 1) div st \<le> (rw + st - 1) div st - 1"
proof -
  let ?N = "(rw + st - 1) div st"
  have "rw - ch \<le> (?N - 1) * st"
    using assms(2) by simp
  then have "rw - ch + st - 1 \<le> (?N - 1) * st + (st - 1)"
    using assms(1) by simp
  then have "(rw - ch + st - 1) div st \<le> ((?N - 1) * st + (st - 1)) div st"
    by (rule div_le_mono)
  also have "\<dots> = (?N - 1) + (st - 1) div st"
    using assms(1) by (intro div_mult_self3) simp
  also have "\<dots> = ?N - 1"
    using assms(1) by simp
  finally show ?thesis .
qed

section \<open>The row callback in a context without wrap-around\<close>

lemma shrink_row_result:
  assumes "row_context_ok info" and "unat (rowWidth info) \<le> length row"
  shows "\<exists>writePos'. shrink_row info 0 0 row
            = Some (Inr (fst (shrink_nat (unat (rowWidth info)) (unat (channels info))
                               (unat (sampleRate info) * unat (channels info)) 0 0 row),
                         writePos'))
          \<and> sint writePos' = int (unat (channels info) *
                ((unat (rowWidth info) + unat (sampleRate info) * unat (channels info) - 1)
                 div (unat (sampleRate info) * unat (channels info))))"
proof -
  let ?rw = "unat (rowWidth info)" and ?ch = "unat (channels info)"
  let ?st = "unat (sampleRate info) * unat (channels info)"
  have pos: "0 < ?rw" "0 < ?st"
    using assms(1) by (simp_all add: row_context_ok_def)
  have "\<exists>writePos'. shrink_row info 0 0 row
            = Some (Inr (fst (shrink_nat ?rw ?ch ?st 0 0 row), writePos'))
          \<and> sint writePos' = int (snd (shrink_nat ?rw ?ch ?st 0 0 row))"
    using assms pos by (intro shrink_row_nat) simp_all
  moreover have "snd (shrink_nat ?rw ?ch ?st 0 0 row) = ?ch * ((?rw + ?st - 1) div ?st)"
    using snd_shrink_nat [OF pos(2), of ?rw ?ch 0 0 row] by simp
  ultimately show ?thesis
    by simp
qed

lemma shrunk_eq:
  assumes "row_context_ok info" and "unat (rowWidth info) \<le> length row"
  shows "shrunk info row = fst (shrink_nat (unat (rowWidth info)) (unat (channels info))
                               (unat (sampleRate info) * unat (channels info)) 0 0 row)"
  using shrink_row_result [OF assms] by (auto simp add: shrunk_def)

lemma row_callback_step:
  assumes "row_context_ok info" and "unat (rowWidth info) \<le> length row"
  shows "row_callback row row_num info =
           Some (Inr (if row_num mod sampleRate info = 0
                      then info \<lparr> png_write_ptr := png_write_ptr info @
                                    [WriteRow (shrunk info row), WriteFlush] \<rparr>
                      else info))"
proof -
  have "0 < rowWidth info" and "sampleRate info \<noteq> 0"
    using assms(1) by (auto simp add: row_context_ok_def word_greater_zero_iff unat_gt_0)
  moreover obtain writePos' where
    "shrink_row info 0 0 row = Some (Inr (shrunk info row, writePos'))"
    using shrink_row_result [OF assms] shrunk_eq [OF assms] by auto
  ultimately show ?thesis
    by (simp add: row_callback_def)
qed

lemma row_context_ok_write [simp]:
  "row_context_ok (info \<lparr> png_write_ptr := calls \<rparr>) = row_context_ok info"
  by (simp add: row_context_ok_def)

lemma shrunk_write [simp]:
  assumes "row_context_ok info" and "unat (rowWidth info) \<le> length row"
  shows "shrunk (info \<lparr> png_write_ptr := calls \<rparr>) row = shrunk info row"
  using assms by (simp add: shrunk_eq)

lemma run_rows:
  assumes "row_context_ok info"
    and "\<forall>(new_row, row_num) \<in> set rows. unat (rowWidth info) \<le> length new_row"
  shows "run_callbacks (map (\<lambda>(new_row, row_num). RowEvent new_row row_num) rows @ evs) info =
         run_callbacks evs
           (info \<lparr> png_write_ptr := png_write_ptr info @
               concat (map (\<lambda>(new_row, row_num). [WriteRow (shrunk info new_row), WriteFlush])
                 (filter (\<lambda>(new_row, row_num). row_num mod sampleRate info = 0) rows)) \<rparr>)"
  using assms
proof (induction rows arbitrary: info)
  case Nil
  then show ?case by simp
next
  case (Cons a rows)
  obtain new_row row_num where a: "a = (new_row, row_num)"
    by (cases a)
  have len: "unat (rowWidth info) \<le> length new_row"
    using Cons.prems(2) a by simp
  have rest: "\<forall>(new_row, row_num) \<in> set rows. unat (rowWidth info) \<le> length new_row"
    using Cons.prems(2) by simp
  have same: "map (\<lambda>(new_row, row_num). [WriteRow (shrunk (info \<lparr> png_write_ptr := calls \<rparr>) new_row), WriteFlush]) rows'
            = map (\<lambda>(new_row, row_num). [WriteRow (shrunk info new_row), WriteFlush]) rows'"
    if "set rows' \<subseteq> set rows" for calls rows'
  proof (rule map_cong [OF refl])
    fix x assume "x \<in> set rows'"
    then have "x \<in> set rows"
      using that by auto
    then have "unat (rowWidth info) \<le> length (fst x)"
      using rest by (cases x) auto
    then show "(case x of (new_row, row_num) \<Rightarrow>
                 [WriteRow (shrunk (info \<lparr> png_write_ptr := calls \<rparr>) new_row), WriteFlush])
             = (case x of (new_row, row_num) \<Rightarrow> [WriteRow (shrunk info new_row), WriteFlush])"
      using Cons.prems(1) by (cases x) (simp add: shrunk_write)
  qed
  show ?case
  proof (cases "row_num mod sampleRate info = 0")
    case True
    let ?info' = "info \<lparr> png_write_ptr := png_write_ptr info @ [WriteRow (shrunk info new_row), WriteFlush] \<rparr>"
    have step: "callback (RowEvent new_row row_num) info = Some (Inr ?info')"
      using row_callback_step [OF Cons.prems(1) len, of row_num] True by (simp add: callback_def)
    have "run_callbacks (map (\<lambda>(new_row, row_num). RowEvent new_row row_num) rows @ evs) ?info' =
          run_callbacks evs
           (?info' \<lparr> png_write_ptr := png_write_ptr ?info' @
               concat (map (\<lambda>(new_row, row_num). [WriteRow (shrunk ?info' new_row), WriteFlush])
                 (filter (\<lambda>(new_row, row_num). row_num mod sampleRate ?info' = 0) rows)) \<rparr>)"
      using Cons.prems(1) rest by (intro Cons.IH) simp_all
    then show ?thesis
      using step a True same [of "filter (\<lambda>(new_row, row_num). row_num mod sampleRate info = 0) rows"]
      by simp
  next
    case False
    have step: "callback (RowEvent new_row row_num) info = Some (Inr info)"
      using row_callback_step [OF Cons.prems(1) len, of row_num] False by (simp add: callback_def)
    show ?thesis
      using step a False Cons.IH [OF Cons.prems(1) rest] by simp
  qed
qed



lemma wrap_never_returns:
  assumes "shrink_row info i writePos new_row = Some r"
  shows "\<not> (info = wrap_info \<and> i = 0)"
proof (rule shrink_row.raw_induct
    [where P = "\<lambda>info i writePos new_row r. \<not> (info = wrap_info \<and> i = 0)", OF _ assms])
  fix f :: "userInfo \<Rightarrow> cint \<Rightarrow> cint \<Rightarrow> byte list \<Rightarrow> (failure + byte list \<times> cint) option"
    and info i writePos new_row r
  assume IH: "\<And>info i writePos new_row r.
                f info i writePos new_row = Some r \<Longrightarrow> \<not> (info = wrap_info \<and> i = 0)"
    and step: "(if (scast i :: size_t) < rowWidth info then
       (case (if (scast i :: size_t) + channels info < rowWidth info
              then copy_channels info i writePos 0 new_row else Inr new_row) of
          Inl f \<Rightarrow> Some (Inl f)
        | Inr new_row' \<Rightarrow>
            f info
              (ucast ((scast i :: size_t) + ucast (sampleRate info) * channels info))
              (ucast ((scast writePos :: size_t) + channels info))
              new_row')
     else Some (Inr (new_row, writePos))) = Some r"
  show "\<not> (info = wrap_info \<and> i = 0)"
  proof
    assume a: "info = wrap_info \<and> i = 0"
    have wrap: "(4294967296 :: cint) = 0"
      by simp
    from a have "f wrap_info 0 (ucast ((scast writePos :: size_t) + 4)) new_row = Some r"
      using step by (simp add: wrap_info_def wrap)
    then show False
      using IH by blast
  qed
qed

section \<open>The header callback\<close>

text \<open>
  \<^bold>\<open>C3.\<close> When the sample rate is greater than the smaller of the width and the
  height of the header, the run fails at the header callback with the error
  \<open>Sample rate outside dimensions of image\<close> (\<open>InvalidSampleRate\<close>), whatever events
  would follow, and the write handle has received no call: no header and no row is
  written. The write info structure is taken to have been created; when its creation
  fails, the source throws the error of the creation before it looks at the sample rate.
\<close>

theorem invalid_sample_rate_fails_first:
  assumes "min (width (get_IHDR png_info)) (height (get_IHDR png_info)) < rate"
  shows "run_callbacks (InfoEvent True png_info # evs) (coPng_info rate)
           = Some (Some InvalidSampleRate, coPng_info rate)
         \<and> png_write_ptr (coPng_info rate) = []"
proof -
  have "width (get_IHDR png_info) < rate \<or> height (get_IHDR png_info) < rate"
    using assms by (simp add: min_less_iff_disj)
  then have "info_callback True png_info (coPng_info rate) = Inl InvalidSampleRate"
    by (auto simp add: info_callback_def InvalidSampleRate_def coPng_info_def Let_def)
  then show ?thesis
    by (simp add: callback_def coPng_info_def)
qed

theorem invalid_sample_rate_fails_first_witness:
  "min (width (get_IHDR (gray8 8 6))) (height (get_IHDR (gray8 8 6))) < 7
   \<and> run_callbacks [InfoEvent True (gray8 8 6), RowEvent [0, 1, 2, 3, 4, 5, 6, 7] 0] (coPng_info 7)
       = Some (Some InvalidSampleRate, coPng_info 7)
   \<and> png_write_ptr (coPng_info 7) = []"
proof -
  have h: "min (width (get_IHDR (gray8 8 6))) (height (get_IHDR (gray8 8 6))) < (7 :: unsigned)"
    by (simp add: gray8_def)
  show ?thesis
    by (rule conjI [OF h invalid_sample_rate_fails_first [OF h]])
qed

text \<open>
  \<^bold>\<open>C4.\<close> When the sample rate is positive and at most the smaller of the width and
  the height, the header callback returns, and what it writes is the header of the input
  with the width and the height divided by the sample rate, rounded down, followed by a
  flush. The write info structure is taken to have been created.
\<close>

theorem output_header_dimensions:
  assumes "0 < sampleRate info"
    and "sampleRate info \<le> min (width (get_IHDR png_info)) (height (get_IHDR png_info))"
  shows "\<exists>info'. info_callback True png_info info = Inr info'
           \<and> png_write_ptr info' = png_write_ptr info @
                [WriteInfo ((get_IHDR png_info)
                   \<lparr> width := width (get_IHDR png_info) div sampleRate info,
                     height := height (get_IHDR png_info) div sampleRate info \<rparr>),
                 WriteFlush]
           \<and> unat (width (get_IHDR png_info) div sampleRate info)
               = unat (width (get_IHDR png_info)) div unat (sampleRate info)
           \<and> unat (height (get_IHDR png_info) div sampleRate info)
               = unat (height (get_IHDR png_info)) div unat (sampleRate info)"
proof -
  have "\<not> width (get_IHDR png_info) < sampleRate info"
    and "\<not> height (get_IHDR png_info) < sampleRate info"
    using assms(2) by (simp_all add: not_less)
  moreover have "sampleRate info \<noteq> 0"
    using assms(1) by auto
  ultimately show ?thesis
    by (simp add: info_callback_def Let_def unat_div)
qed

theorem output_header_dimensions_witness:
  "\<exists>info'. info_callback True (gray8 9 7) (coPng_info 2) = Inr info'
     \<and> png_write_ptr info' =
         [WriteInfo ((get_IHDR (gray8 9 7)) \<lparr> width := 4, height := 3 \<rparr>), WriteFlush]"
proof -
  have a: "0 < sampleRate (coPng_info 2)"
    by (simp add: coPng_info_def)
  have b: "sampleRate (coPng_info 2)
           \<le> min (width (get_IHDR (gray8 9 7))) (height (get_IHDR (gray8 9 7)))"
    by (simp add: coPng_info_def gray8_def)
  show ?thesis
    using output_header_dimensions [OF a b] by (simp add: coPng_info_def gray8_def)
qed

section \<open>The row transform\<close>

text \<open>
  \<^bold>\<open>C1.\<close> The claim: a trailing pixel whose bytes end exactly at the row width
  (\<open>i + channels = rowWidth\<close>) is copied, and a pixel is dropped only when its bytes
  would run past the row width. The guard of the source is \<open>i + channels < rowWidth\<close>,
  so the exact fit is dropped. In a row of three bytes with one channel and sample rate 2,
  the pixel at index 2 fits exactly; the loop returns the buffer as it was, with byte 1
  still 11, where the claim has 12.
\<close>

theorem exact_fit_pixel_is_not_copied:
  "shrink_row (gray_info 3 2) 0 0 [10, 11, 12] = Some (Inr ([10, 11, 12], 2))"
  by (simp add: gray_info_def shrink_row.simps int_fits_def in_buffer_def)

text \<open>
  \<^bold>\<open>C9.\<close> The claim as stated, for every retained row, fails where the stride wraps
  around. With a row of 9 bytes, 3 channels and a sample rate of 1431655766 the stride is
  \<open>2 ^ 32 + 2\<close>, which moves \<open>i\<close> by 2: the loop runs five times, the last pixel
  (at 8) is not copied, and \<open>writePos\<close> ends at 15, where the row width divided by the
  stride, rounded up, times the channel count is 3.
\<close>

theorem wrapped_stride_moves_cursor_past_the_span:
  "shrink_row \<lparr> isDone = False, png_write_ptr = [], rowWidth = 9, channels = 3,
                sampleRate = 1431655766 \<rparr> 0 0 [10, 11, 12, 13, 14, 15, 16, 17, 18]
     = Some (Inr ([10, 11, 12, 12, 12, 12, 12, 12, 12], 15))
   \<and> (9 + 1431655766 * 3 - 1) div (1431655766 * 3) * 3 = (3 :: nat)"
  by (simp add: shrink_row.simps int_fits_def in_buffer_def)

text \<open>
  \<^bold>\<open>C9, amended.\<close> In a row context without wrap-around, with \<open>N\<close> the number of strides
  that start below the row width (the row width divided by the stride, rounded up), the
  loop returns with \<open>writePos = N * channels\<close>, whether or not the last stride's pixel
  passed the bounds check. When that pixel is not copied, the bytes of the buffer from
  \<open>(N - 1) * channels\<close> on, among them the last \<open>channels\<close> bytes of the output row,
  are the bytes the buffer held before the loop.
\<close>

theorem write_cursor_advances_every_stride:
  assumes "row_context_ok info" and "unat (rowWidth info) \<le> length new_row"
    and "rw = unat (rowWidth info)" and "ch = unat (channels info)"
    and "st = unat (sampleRate info) * unat (channels info)"
    and "N = (rw + st - 1) div st"
  shows "\<exists>new_row' writePos'. shrink_row info 0 0 new_row = Some (Inr (new_row', writePos'))
           \<and> sint writePos' = int (N * ch)
           \<and> length new_row' = length new_row
           \<and> (\<not> (N - 1) * st + ch < rw \<longrightarrow>
                (\<forall>p. (N - 1) * ch \<le> p \<and> p < length new_row \<longrightarrow> new_row' ! p = new_row ! p))"
proof -
  have pos: "0 < st" and le: "ch \<le> st"
    using assms(1,4,5) by (auto simp add: row_context_ok_def)
  obtain writePos' where
    run: "shrink_row info 0 0 new_row = Some (Inr (fst (shrink_nat rw ch st 0 0 new_row), writePos'))"
    and cursor: "sint writePos' = int (ch * N)"
    using shrink_row_result [OF assms(1,2)] assms(3-6) by auto
  have tail: "fst (shrink_nat rw ch st 0 0 new_row) ! p = new_row ! p"
    if dropped: "\<not> (N - 1) * st + ch < rw" and p: "(N - 1) * ch \<le> p" for p
  proof -
    have "(rw - ch + st - 1) div st \<le> N - 1"
      using copies_le_when_last_dropped [OF pos, of rw ch] dropped assms(6) by simp
    then have "ch * ((rw - ch + st - 1) div st) \<le> ch * (N - 1)"
      by (rule mult_le_mono2)
    also have "\<dots> \<le> p"
      using p by (simp only: mult.commute)
    finally have "0 + ch * ((rw - (0 + ch) + st - 1) div st) \<le> p"
      by (simp only: add_0)
    then show ?thesis
      by (rule shrink_nat_untouched [OF pos le])
  qed
  show ?thesis
    using run cursor tail by (auto simp add: length_shrink_nat mult.commute)
qed

theorem write_cursor_advances_every_stride_witness:
  "shrink_row (gray_info 9 2) 0 0 [10, 11, 12, 13, 14, 15, 16, 17, 18]
     = Some (Inr ([10, 12, 14, 16, 14, 15, 16, 17, 18], 5))
   \<and> \<not> ((((9 :: nat) + 2 - 1) div 2) - 1) * 2 + 1 < 9
   \<and> (\<exists>new_row' writePos'. shrink_row (gray_info 9 2) 0 0 [10, 11, 12, 13, 14, 15, 16, 17, 18]
           = Some (Inr (new_row', writePos'))
         \<and> sint writePos' = int (5 * 1)
         \<and> length new_row' = length [10 :: byte, 11, 12, 13, 14, 15, 16, 17, 18]
         \<and> (\<not> (5 - 1) * 2 + 1 < (9 :: nat) \<longrightarrow>
              (\<forall>p. (5 - 1) * 1 \<le> p \<and> p < length [10 :: byte, 11, 12, 13, 14, 15, 16, 17, 18] \<longrightarrow>
                 new_row' ! p = [10 :: byte, 11, 12, 13, 14, 15, 16, 17, 18] ! p)))"
proof -
  have ok: "row_context_ok (gray_info 9 2)"
    by (simp add: row_context_ok_def gray_info_def)
  have len: "unat (rowWidth (gray_info 9 2)) \<le> length [10 :: byte, 11, 12, 13, 14, 15, 16, 17, 18]"
    by (simp add: gray_info_def)
  have rw: "(9 :: nat) = unat (rowWidth (gray_info 9 2))"
    and ch: "(1 :: nat) = unat (channels (gray_info 9 2))"
    and st: "(2 :: nat) = unat (sampleRate (gray_info 9 2)) * unat (channels (gray_info 9 2))"
    and N: "(5 :: nat) = (9 + 2 - 1) div 2"
    by (simp_all add: gray_info_def)
  have ev: "shrink_row (gray_info 9 2) 0 0 [10, 11, 12, 13, 14, 15, 16, 17, 18]
            = Some (Inr ([10, 12, 14, 16, 14, 15, 16, 17, 18], 5))"
    by (simp add: gray_info_def shrink_row.simps int_fits_def in_buffer_def)
  have dropped: "\<not> ((((9 :: nat) + 2 - 1) div 2) - 1) * 2 + 1 < 9"
    by simp
  show ?thesis
    by (rule conjI [OF ev conjI [OF dropped
          write_cursor_advances_every_stride [OF ok len rw ch st N]]])
qed

text \<open>
  \<^bold>\<open>C10.\<close> The claim as stated, for every row width, channel count and sample rate
  of at least 1, fails where the stride wraps around: with a sample rate of \<open>2 ^ 30\<close>
  and 4 channels the stride is \<open>2 ^ 32\<close>, \<open>i\<close> stays 0 and the loop never ends.
\<close>

theorem row_loop_wraps_and_never_ends:
  "shrink_row \<lparr> isDone = False, png_write_ptr = [], rowWidth = 4, channels = 4,
                sampleRate = 1073741824 \<rparr> 0 0 [1, 2, 3, 4] = None"
proof (cases "shrink_row wrap_info 0 0 [1, 2, 3, 4]")
  case None
  then show ?thesis by (simp add: wrap_info_def)
next
  case (Some r)
  then show ?thesis
    using wrap_never_returns [OF Some] by simp
qed

text \<open>
  \<^bold>\<open>C10, amended.\<close> When moreover the row width plus one stride is below \<open>2 ^ 31\<close>,
  the loop ends, and no read or write leaves the row buffer and no \<open>int\<close> overflows:
  the loop returns a buffer of the same length. This also holds on the buffer cut to
  exactly \<open>rowWidth\<close> bytes, so every index the loop reads or writes is below the row
  width.
\<close>

theorem row_loop_terminates_in_bounds:
  assumes "1 \<le> unat (rowWidth info)" and "1 \<le> unat (channels info)"
    and "1 \<le> unat (sampleRate info)"
    and "unat (rowWidth info) + unat (sampleRate info) * unat (channels info) < 2 ^ 31"
    and "unat (rowWidth info) \<le> length new_row"
  shows "(\<exists>new_row' writePos'. shrink_row info 0 0 new_row = Some (Inr (new_row', writePos'))
            \<and> length new_row' = length new_row)
       \<and> (\<exists>new_row' writePos'.
            shrink_row info 0 0 (take (unat (rowWidth info)) new_row) = Some (Inr (new_row', writePos')))"
proof -
  have ok: "row_context_ok info"
    using assms(1-4) by (simp add: row_context_ok_def)
  have cut: "unat (rowWidth info) \<le> length (take (unat (rowWidth info)) new_row)"
    using assms(5) by simp
  show ?thesis
    using shrink_row_result [OF ok assms(5)] shrink_row_result [OF ok cut]
    by (auto simp add: length_shrink_nat)
qed

theorem row_loop_terminates_in_bounds_witness:
  "shrink_row (gray_info 8 2) 0 0 [0, 1, 2, 3, 4, 5, 6, 7] = Some (Inr ([0, 2, 4, 6, 4, 5, 6, 7], 4))
   \<and> (\<exists>new_row' writePos'. shrink_row (gray_info 8 2) 0 0 [0, 1, 2, 3, 4, 5, 6, 7]
          = Some (Inr (new_row', writePos'))
        \<and> length new_row' = length [0 :: byte, 1, 2, 3, 4, 5, 6, 7])"
proof -
  have a: "1 \<le> unat (rowWidth (gray_info 8 2))" "1 \<le> unat (channels (gray_info 8 2))"
    "1 \<le> unat (sampleRate (gray_info 8 2))"
    "unat (rowWidth (gray_info 8 2)) + unat (sampleRate (gray_info 8 2)) * unat (channels (gray_info 8 2))
       < 2 ^ 31"
    "unat (rowWidth (gray_info 8 2)) \<le> length [0 :: byte, 1, 2, 3, 4, 5, 6, 7]"
    by (simp_all add: gray_info_def)
  have ev: "shrink_row (gray_info 8 2) 0 0 [0, 1, 2, 3, 4, 5, 6, 7]
            = Some (Inr ([0, 2, 4, 6, 4, 5, 6, 7], 4))"
    by (simp add: gray_info_def shrink_row.simps int_fits_def in_buffer_def)
  show ?thesis
    by (rule conjI [OF ev conjunct1 [OF row_loop_terminates_in_bounds [OF a]]])
qed

section \<open>The rows that are forwarded\<close>

text \<open>
  \<^bold>\<open>C2.\<close> The claim as stated, for every row, fails where the stride wraps around.
  With a sample rate of \<open>2 ^ 30\<close> and 4 channels, row 0 is a multiple of the sample
  rate, but the loop of the callback never ends, so the callback does not return and the
  row is never handed to \<open>png_write_row\<close>.
\<close>

theorem row_zero_is_never_forwarded:
  "(0 :: png_uint_32) mod sampleRate wrap_info = 0
   \<and> row_callback [1, 2, 3, 4] 0 wrap_info = None"
proof -
  have "shrink_row wrap_info 0 0 [1, 2, 3, 4] = None"
  proof (cases "shrink_row wrap_info 0 0 [1, 2, 3, 4]")
    case None
    then show ?thesis .
  next
    case (Some r)
    then show ?thesis
      using wrap_never_returns [OF Some] by simp
  qed
  then show ?thesis
    by (simp add: row_callback_def wrap_info_def)
qed

text \<open>
  \<^bold>\<open>C2, amended.\<close> In a row context without wrap-around and on a row that fills the row
  width, the row callback returns; it hands the transformed row to \<open>png_write_row\<close>
  when the row number is a multiple of the sample rate, and leaves the write handle as it
  was otherwise. A run of row callbacks on such rows ends without failure, and what it
  adds to the write handle is, for each row whose number is a multiple of the sample rate
  and for no other, the transformed row and a flush, in the order of the run. When the
  decoder delivers the rows in strictly increasing order of their numbers, the numbers of
  the forwarded rows are strictly increasing too.
\<close>

theorem rows_forwarded_iff_multiple:
  assumes "row_context_ok info"
    and "unat (rowWidth info) \<le> length new_row"
    and "\<forall>(new_row, row_num) \<in> set rows. unat (rowWidth info) \<le> length new_row"
  shows "row_callback new_row row_num info =
           Some (Inr (if row_num mod sampleRate info = 0
                      then info \<lparr> png_write_ptr := png_write_ptr info @
                                    [WriteRow (shrunk info new_row), WriteFlush] \<rparr>
                      else info))
         \<and> run_callbacks (map (\<lambda>(new_row, row_num). RowEvent new_row row_num) rows) info =
           Some (None, info \<lparr> png_write_ptr := png_write_ptr info @
             concat (map (\<lambda>(new_row, row_num). [WriteRow (shrunk info new_row), WriteFlush])
               (filter (\<lambda>(new_row, row_num). row_num mod sampleRate info = 0) rows)) \<rparr>)
         \<and> (sorted_wrt (<) (map snd rows) \<longrightarrow>
              sorted_wrt (<)
                (map snd (filter (\<lambda>(new_row, row_num). row_num mod sampleRate info = 0) rows)))"
proof (intro conjI)
  show "row_callback new_row row_num info =
           Some (Inr (if row_num mod sampleRate info = 0
                      then info \<lparr> png_write_ptr := png_write_ptr info @
                                    [WriteRow (shrunk info new_row), WriteFlush] \<rparr>
                      else info))"
    by (rule row_callback_step [OF assms(1,2)])
next
  show "run_callbacks (map (\<lambda>(new_row, row_num). RowEvent new_row row_num) rows) info =
           Some (None, info \<lparr> png_write_ptr := png_write_ptr info @
             concat (map (\<lambda>(new_row, row_num). [WriteRow (shrunk info new_row), WriteFlush])
               (filter (\<lambda>(new_row, row_num). row_num mod sampleRate info = 0) rows)) \<rparr>)"
    using run_rows [OF assms(1,3), of "[]"] by simp
next
  have "sorted_wrt (<) (map snd (filter (\<lambda>(new_row, row_num). row_num mod sampleRate info = 0) rows))"
    if "sorted_wrt (<) (map snd rows)"
    using that by (induction rows) auto
  then show "sorted_wrt (<) (map snd rows) \<longrightarrow>
              sorted_wrt (<)
                (map snd (filter (\<lambda>(new_row, row_num). row_num mod sampleRate info = 0) rows))"
    by simp
qed

theorem rows_forwarded_iff_multiple_witness:
  "row_callback [5, 6, 7, 8] 1 (gray_info 4 2) = Some (Inr (gray_info 4 2))
   \<and> row_callback [9, 10, 11, 12] 2 (gray_info 4 2)
       = Some (Inr ((gray_info 4 2) \<lparr> png_write_ptr := [WriteRow [9, 11, 11, 12], WriteFlush] \<rparr>))
   \<and> run_callbacks
       (map (\<lambda>(new_row, row_num). RowEvent new_row row_num)
          [([1, 2, 3, 4], 0), ([5, 6, 7, 8], 1), ([9, 10, 11, 12], 2)]) (gray_info 4 2) =
       Some (None, (gray_info 4 2) \<lparr> png_write_ptr :=
         [WriteRow [1, 3, 3, 4], WriteFlush, WriteRow [9, 11, 11, 12], WriteFlush] \<rparr>)
   \<and> sorted_wrt (<) (map snd [([1, 2, 3, 4], 0 :: png_uint_32), ([9 :: byte, 10, 11, 12], 2)])"
proof -
  let ?rows = "[([1, 2, 3, 4], 0), ([5, 6, 7, 8], 1), ([9, 10, 11, 12], 2)] :: (byte list \<times> png_uint_32) list"
  have ok: "row_context_ok (gray_info 4 2)"
    by (simp add: row_context_ok_def gray_info_def)
  have odd: "unat (rowWidth (gray_info 4 2)) \<le> length [5 :: byte, 6, 7, 8]"
    and even: "unat (rowWidth (gray_info 4 2)) \<le> length [9 :: byte, 10, 11, 12]"
    by (simp_all add: gray_info_def)
  have len: "\<forall>(new_row, row_num) \<in> set ?rows. unat (rowWidth (gray_info 4 2)) \<le> length new_row"
    by (simp add: gray_info_def)
  have inc: "sorted_wrt (<) (map snd ?rows)"
    by simp
  have ev: "shrunk (gray_info 4 2) [1, 2, 3, 4] = [1, 3, 3, 4]"
    "shrunk (gray_info 4 2) [9, 10, 11, 12] = [9, 11, 11, 12]"
    by (simp_all add: gray_info_def shrunk_def shrink_row.simps int_fits_def in_buffer_def)
  have keep: "filter (\<lambda>(new_row, row_num). row_num mod sampleRate (gray_info 4 2) = 0) ?rows
              = [([1, 2, 3, 4], 0), ([9, 10, 11, 12], 2)]"
    by (simp add: gray_info_def)
  have rate: "sampleRate (gray_info 4 2) = 2"
    by (simp add: gray_info_def)
  have none: "png_write_ptr (gray_info 4 2) = []"
    by (simp add: gray_info_def)
  note skipped = conjunct1 [OF rows_forwarded_iff_multiple [OF ok odd len, of 1], unfolded rate]
  note kept = conjunct1 [OF rows_forwarded_iff_multiple [OF ok even len, of 2], unfolded rate]
  note run = conjunct1 [OF conjunct2 [OF rows_forwarded_iff_multiple [OF ok even len]], unfolded keep]
  note ord = mp [OF conjunct2 [OF conjunct2 [OF rows_forwarded_iff_multiple [OF ok even len]]] inc,
    unfolded keep]
  show ?thesis
    using skipped kept run ord by (simp add: ev none)
qed

text \<open>
  \<^bold>\<open>C7.\<close> The 8 by 8 image of one channel with sample rate 2, each row holding the
  bytes 0 to 7: the header written is 4 by 4; the callback forwards exactly the rows 0,
  2, 4 and 6; the loop leaves 0, 2, 4, 6 in the first four bytes of the buffer, with
  \<open>writePos = 4\<close>; and the whole run writes the header, these four rows and the end.
\<close>

theorem scenario_8x8_rate_2:
  "info_callback True (gray8 8 8) (coPng_info 2) = Inr info_8x8
   \<and> filter (\<lambda>row_num. row_callback [0, 1, 2, 3, 4, 5, 6, 7] row_num info_8x8 \<noteq> Some (Inr info_8x8))
        [0, 1, 2, 3, 4, 5, 6, 7] = [0, 2, 4, 6]
   \<and> shrink_row info_8x8 0 0 [0, 1, 2, 3, 4, 5, 6, 7] = Some (Inr ([0, 2, 4, 6, 4, 5, 6, 7], 4))
   \<and> take 4 [0 :: byte, 2, 4, 6, 4, 5, 6, 7] = [0, 2, 4, 6]
   \<and> row_callback [0, 1, 2, 3, 4, 5, 6, 7] 0 info_8x8
       = Some (Inr (info_8x8 \<lparr> png_write_ptr := png_write_ptr info_8x8 @
                      [WriteRow [0, 2, 4, 6, 4, 5, 6, 7], WriteFlush] \<rparr>))
   \<and> run_callbacks
       (InfoEvent True (gray8 8 8) # map (RowEvent [0, 1, 2, 3, 4, 5, 6, 7]) [0, 1, 2, 3, 4, 5, 6, 7]
          @ [EndEvent])
       (coPng_info 2) =
       Some (None, info_8x8
         \<lparr> isDone := True,
           png_write_ptr := png_write_ptr info_8x8 @
             [WriteRow [0, 2, 4, 6, 4, 5, 6, 7], WriteFlush,
              WriteRow [0, 2, 4, 6, 4, 5, 6, 7], WriteFlush,
              WriteRow [0, 2, 4, 6, 4, 5, 6, 7], WriteFlush,
              WriteRow [0, 2, 4, 6, 4, 5, 6, 7], WriteFlush,
              WriteEnd, WriteFlush] \<rparr>)"
  by (simp add: gray8_def info_8x8_def coPng_info_def callback_def info_callback_def
      row_callback_def end_callback_def shrink_row.simps int_fits_def in_buffer_def Let_def)



section \<open>The reader\<close>

text \<open>
  \<^bold>\<open>C5.\<close> The claim: a read error always ends in \<open>IOReadError\<close>, never in a normal
  end of stream. The source tests \<open>numRead == 0\<close> before \<open>imageStream.fail()\<close>. A read
  that fails without extracting a character therefore returns: \<open>co_await\<close> yields the
  empty span without suspending, exactly as it does at the end of a stream that has not
  failed.
\<close>

theorem failed_read_of_no_bytes_is_end_of_file:
  "co_await broken_stream 4 \<lparr> imageStream = False, imageBuffer = [0, 0, 0, 0], totalRead = 0 \<rparr>
     = Inr ([], False, \<lparr> imageStream = True, imageBuffer = [0, 0, 0, 0], totalRead = 0 \<rparr>)
   \<and> fail broken_stream True
   \<and> co_await list_stream 4 \<lparr> imageStream = ([], False), imageBuffer = [0, 0, 0, 0], totalRead = 0 \<rparr>
     = Inr ([], False, \<lparr> imageStream = ([], False), imageBuffer = [0, 0, 0, 0], totalRead = 0 \<rparr>)
   \<and> co_await torn_stream 4 \<lparr> imageStream = ([7], False), imageBuffer = [0, 0, 0, 0], totalRead = 0 \<rparr>
     = Inl IOReadError"
  by (simp add: co_await_def await_ready_def await_suspend_def await_resume_def
      broken_stream_def list_stream_def torn_stream_def IOReadError_def)

text \<open>
  \<^bold>\<open>C6.\<close> The contract of the reader, with \<open>moreAvailable\<close> the boolean that the
  awaiter returns: that of \<open>await_ready\<close> for a full buffer, that of \<open>await_suspend\<close>
  otherwise; the span is what \<open>await_resume\<close> returns. For a reader whose buffer has
  \<open>bufSize\<close> bytes of which \<open>totalRead\<close> are filled, and a \<open>readsome\<close> that extracts
  no more characters than it is asked for:
  \<^item> for a full buffer \<open>await_ready\<close> returns true and the span is the full buffer;
    no read is attempted: the coroutine goes on at once, without being suspended, and the
    reader and its stream are as they were;
  \<^item> when \<open>readsome\<close> extracts nothing, \<open>await_suspend\<close> returns false and the span
    is the bytes accumulated so far;
  \<^item> otherwise, the read not having failed, the bytes are appended to the accumulated
    ones and \<open>await_suspend\<close> returns true exactly when the buffer is still not full.
\<close>

theorem reader_fill_contract:
  assumes "length (imageBuffer r) = bufSize" and "totalRead r \<le> bufSize"
    and "readsome io (imageStream r) (bufSize - totalRead r) = (bytes, stream')"
    and "length bytes \<le> bufSize - totalRead r"
  shows "(totalRead r = bufSize \<longrightarrow>
            await_ready bufSize r = True
            \<and> await_resume r = imageBuffer r
            \<and> co_await io bufSize r = Inr (imageBuffer r, False, r))
       \<and> (totalRead r < bufSize \<and> bytes = [] \<longrightarrow>
            await_ready bufSize r = False
            \<and> await_suspend io bufSize r = Inr (False, r \<lparr> imageStream := stream' \<rparr>)
            \<and> await_resume (r \<lparr> imageStream := stream' \<rparr>) = take (totalRead r) (imageBuffer r))
       \<and> (totalRead r < bufSize \<and> bytes \<noteq> [] \<and> \<not> fail io stream' \<longrightarrow>
            await_ready bufSize r = False
            \<and> (\<exists>r'. await_suspend io bufSize r = Inr (totalRead r + length bytes < bufSize, r')
                  \<and> await_resume r' = take (totalRead r) (imageBuffer r) @ bytes
                  \<and> totalRead r' = totalRead r + length bytes
                  \<and> imageStream r' = stream'
                  \<and> length (imageBuffer r') = bufSize))"
proof (intro conjI impI)
  assume "totalRead r = bufSize"
  then show "await_ready bufSize r = True"
    by (simp add: await_ready_def)
next
  assume "totalRead r = bufSize"
  then show "await_resume r = imageBuffer r"
    using assms(1) by (simp add: await_resume_def)
next
  assume "totalRead r = bufSize"
  then show "co_await io bufSize r = Inr (imageBuffer r, False, r)"
    using assms(1) by (simp add: co_await_def await_ready_def await_resume_def)
next
  assume "totalRead r < bufSize \<and> bytes = []"
  then show "await_ready bufSize r = False"
    by (simp add: await_ready_def)
next
  assume "totalRead r < bufSize \<and> bytes = []"
  then show "await_suspend io bufSize r = Inr (False, r \<lparr> imageStream := stream' \<rparr>)"
    using assms(3) by (simp add: await_suspend_def)
next
  show "await_resume (r \<lparr> imageStream := stream' \<rparr>) = take (totalRead r) (imageBuffer r)"
    by (simp add: await_resume_def)
next
  assume "totalRead r < bufSize \<and> bytes \<noteq> [] \<and> \<not> fail io stream'"
  then show "await_ready bufSize r = False"
    by (simp add: await_ready_def)
next
  assume a: "totalRead r < bufSize \<and> bytes \<noteq> [] \<and> \<not> fail io stream'"
  have "take (totalRead r + length bytes)
               (take (totalRead r) (imageBuffer r) @ bytes @
                drop (totalRead r + length bytes) (imageBuffer r))
             = take (totalRead r) (imageBuffer r) @ bytes"
    using a assms(1) by simp
  then show "\<exists>r'. await_suspend io bufSize r = Inr (totalRead r + length bytes < bufSize, r')
                  \<and> await_resume r' = take (totalRead r) (imageBuffer r) @ bytes
                  \<and> totalRead r' = totalRead r + length bytes
                  \<and> imageStream r' = stream'
                  \<and> length (imageBuffer r') = bufSize"
    using a assms(1,3,4)
    by (auto simp add: await_suspend_def await_resume_def Let_def)
qed

theorem reader_fill_contract_witness:
  "await_ready 2 \<lparr> imageStream = ([7 :: byte], False), imageBuffer = [1, 2], totalRead = 2 \<rparr> = True
   \<and> await_resume \<lparr> imageStream = ([7 :: byte], False), imageBuffer = [1, 2], totalRead = 2 \<rparr>
       = [1, 2]
   \<and> co_await list_stream 2 \<lparr> imageStream = ([7], False), imageBuffer = [1, 2], totalRead = 2 \<rparr>
       = Inr ([1, 2], False, \<lparr> imageStream = ([7], False), imageBuffer = [1, 2], totalRead = 2 \<rparr>)
   \<and> await_suspend list_stream 4
         \<lparr> imageStream = ([], False), imageBuffer = [1, 0, 0, 0], totalRead = 1 \<rparr>
       = Inr (False, \<lparr> imageStream = ([], False), imageBuffer = [1, 0, 0, 0], totalRead = 1 \<rparr>)
   \<and> await_resume \<lparr> imageStream = ([] :: byte list, False), imageBuffer = [1, 0, 0, 0], totalRead = 1 \<rparr>
       = [1]
   \<and> (\<exists>r'. await_suspend list_stream 4
               \<lparr> imageStream = ([7, 8], False), imageBuffer = [1, 0, 0, 0], totalRead = 1 \<rparr>
           = Inr (True, r')
         \<and> await_resume r' = [1, 7, 8]
         \<and> totalRead r' = 3 \<and> imageStream r' = ([], False) \<and> length (imageBuffer r') = 4)
   \<and> (\<exists>r'. await_suspend list_stream 4
               \<lparr> imageStream = ([7, 8, 9, 10], False), imageBuffer = [1, 0, 0, 0], totalRead = 1 \<rparr>
           = Inr (False, r')
         \<and> await_resume r' = [1, 7, 8, 9]
         \<and> totalRead r' = 4 \<and> imageStream r' = ([10], False) \<and> length (imageBuffer r') = 4)"
proof -
  let ?full = "\<lparr> imageStream = ([7 :: byte], False), imageBuffer = [1 :: byte, 2], totalRead = 2 \<rparr>"
  let ?eof = "\<lparr> imageStream = ([] :: byte list, False), imageBuffer = [1 :: byte, 0, 0, 0],
                totalRead = 1 \<rparr>"
  let ?part = "\<lparr> imageStream = ([7 :: byte, 8], False), imageBuffer = [1 :: byte, 0, 0, 0],
                 totalRead = 1 \<rparr>"
  let ?fill = "\<lparr> imageStream = ([7 :: byte, 8, 9, 10], False), imageBuffer = [1 :: byte, 0, 0, 0],
                 totalRead = 1 \<rparr>"
  have f: "length (imageBuffer ?full) = 2" "totalRead ?full \<le> 2"
    "readsome list_stream (imageStream ?full) (2 - totalRead ?full) = ([], ([7], False))"
    "length ([] :: byte list) \<le> 2 - totalRead ?full"
    and f': "totalRead ?full = 2"
    by (simp_all add: list_stream_def)
  have e: "length (imageBuffer ?eof) = 4" "totalRead ?eof \<le> 4"
    "readsome list_stream (imageStream ?eof) (4 - totalRead ?eof) = ([], ([], False))"
    "length ([] :: byte list) \<le> 4 - totalRead ?eof"
    and e': "totalRead ?eof < 4 \<and> ([] :: byte list) = []"
    by (simp_all add: list_stream_def)
  have p: "length (imageBuffer ?part) = 4" "totalRead ?part \<le> 4"
    "readsome list_stream (imageStream ?part) (4 - totalRead ?part) = ([7, 8], ([], False))"
    "length [7 :: byte, 8] \<le> 4 - totalRead ?part"
    and p': "totalRead ?part < 4 \<and> [7 :: byte, 8] \<noteq> [] \<and> \<not> fail list_stream ([], False)"
    by (simp_all add: list_stream_def)
  have g: "length (imageBuffer ?fill) = 4" "totalRead ?fill \<le> 4"
    "readsome list_stream (imageStream ?fill) (4 - totalRead ?fill) = ([7, 8, 9], ([10], False))"
    "length [7 :: byte, 8, 9] \<le> 4 - totalRead ?fill"
    and g': "totalRead ?fill < 4 \<and> [7 :: byte, 8, 9] \<noteq> [] \<and> \<not> fail list_stream ([10], False)"
    by (simp_all add: list_stream_def)
  note full = mp [OF conjunct1 [OF reader_fill_contract [OF f]] f']
  note eof = conjunct2 [OF mp [OF conjunct1 [OF conjunct2 [OF reader_fill_contract [OF e]]] e']]
  note part = conjunct2 [OF mp [OF conjunct2 [OF conjunct2 [OF reader_fill_contract [OF p]]] p']]
  note fill = conjunct2 [OF mp [OF conjunct2 [OF conjunct2 [OF reader_fill_contract [OF g]]] g']]
  show ?thesis
    using full eof part fill by (simp add: eval_nat_numeral)
qed

end
